theory Spec2Isabelle
  imports Main
begin

section \<open>Machine integers and bit sets\<close>

text \<open>
  \<open>std::size_t\<close> is taken as a 64-bit unsigned integer and \<open>unsigned int\<close> (the type of the
  loop counters declared \<open>auto i = 0u\<close>) as a 32-bit one. Values are natural numbers and
  the wrap-around of each arithmetic operation of the source is written out.
  The template parameter \<open>base\<close> is the first argument of every operation; the
  \<open>static_assert\<close>s of the classes make it positive.
\<close>

definition size_wrap :: "nat \<Rightarrow> nat" where
  "size_wrap n = n mod 2 ^ 64"

definition size_sub :: "nat \<Rightarrow> nat \<Rightarrow> nat" where
  \<comment> \<open>\<open>a - b\<close> on \<open>std::size_t\<close>, for operands below \<open>2 ^ 64\<close>\<close>
  "size_sub a b = size_wrap (a + 2 ^ 64 - b)"

definition uint_wrap :: "nat \<Rightarrow> nat" where
  "uint_wrap n = n mod 2 ^ 32"

text \<open>
  \<open>std::bitset<base>\<close> is a list of \<open>base\<close> booleans, bit \<open>i\<close> at index \<open>i\<close>. The shifts
  fill with zeros and drop what leaves the set, as the standard library's do (a shift by
  \<open>base\<close> or more clears every bit).
\<close>

type_synonym bitset = "bool list"

definition bs_zero :: "nat \<Rightarrow> bitset" where
  "bs_zero n = replicate n False"

definition bs_not :: "bitset \<Rightarrow> bitset" where
  "bs_not bs = map Not bs"

definition bs_and :: "bitset \<Rightarrow> bitset \<Rightarrow> bitset" where
  "bs_and a b = map (\<lambda>(x, y). x \<and> y) (zip a b)"

definition bs_shl :: "bitset \<Rightarrow> nat \<Rightarrow> bitset" where
  "bs_shl bs k = map (\<lambda>i. k \<le> i \<and> bs ! (i - k)) [0..<length bs]"

definition bs_shr :: "bitset \<Rightarrow> nat \<Rightarrow> bitset" where
  "bs_shr bs k = map (\<lambda>i. i + k < length bs \<and> bs ! (i + k)) [0..<length bs]"

definition bs_count :: "bitset \<Rightarrow> nat" where
  "bs_count bs = length (filter (\<lambda>b. b) bs)"

section \<open>Rotor\<close>

text \<open>
  The fields of \<open>Rotor<IndexT, base>\<close>. Code points (\<open>IndexT\<close>) are natural numbers.
  A cell of \<open>reverse_cipher\<close> is \<open>None\<close> while it holds the indeterminate value the
  member starts with (it has no initialiser), and \<open>Some v\<close> once the constructor has
  written \<open>v\<close> there. The turnover callback is not a field of the model: an operation
  returns the argument it calls the callback with (\<open>None\<close> when it does not call it),
  and the caller of the operation decides what the callback does.
\<close>

record rotor =
  forward_cipher :: "nat list"
  reverse_cipher :: "nat option list"
  position :: nat
  notches :: bitset

text \<open>
  The constructor's loop \<open>for (auto i = 0u; i < cipher.size(); ++i)
  reverse_cipher[cipher[i]] = i\<close>. The counter is an \<open>unsigned int\<close>; a write outside
  the array has no defined result (\<open>None\<close>), and so has a loop that never ends.
\<close>

partial_function (option) fill_reverse ::
  "nat list \<Rightarrow> nat \<Rightarrow> nat option list \<Rightarrow> nat option list option" where
  "fill_reverse cipher i rc =
     (if i < length cipher then
        (if cipher ! i < length rc
         then fill_reverse cipher (uint_wrap (i + 1)) (rc[cipher ! i := Some i])
         else None)
      else Some rc)"

declare fill_reverse.simps [code]

text \<open>
  \<open>Rotor(cipher, notches, callback)\<close>. The argument types fix both lengths to \<open>base\<close>;
  a call with other lengths does not compile and gives no rotor.
\<close>

definition Rotor :: "nat \<Rightarrow> nat list \<Rightarrow> bitset \<Rightarrow> rotor option" where
  "Rotor base cipher nts =
     (if length cipher = base \<and> length nts = base then
        (case fill_reverse cipher 0 (replicate base None) of
           None \<Rightarrow> None
         | Some rc \<Rightarrow>
             Some \<lparr>forward_cipher = cipher, reverse_cipher = rc,
                   position = 0, notches = nts\<rparr>)
      else None)"

text \<open>
  \<open>std::size_t advance()\<close>: the result is the rotor, the argument of the callback's call
  if there is one, and the value returned. A failed \<open>assert\<close> and a bit read outside the
  bit set give \<open>None\<close>.
\<close>

definition advance :: "nat \<Rightarrow> rotor \<Rightarrow> (rotor \<times> nat option \<times> nat) option" where
  "advance base r =
     (if position r < base then
        (let p1 = size_wrap (position r + 1);
             p = (if p1 = base then 0 else p1)
         in if p < length (notches r)
            then Some (r\<lparr>position := p\<rparr>, (if notches r ! p then Some 1 else None), p)
            else None)
      else None)"

text \<open>
  \<open>std::size_t advance(std::size_t steps)\<close>. \<open>util::make_sorted_array(position, next)\<close>
  is the pair of the smaller and the larger of the two. The \<open>assert\<close> closes the body.
\<close>

definition make_sorted_array :: "nat \<Rightarrow> nat \<Rightarrow> nat \<times> nat" where
  "make_sorted_array a b = (min a b, max a b)"

definition advance_mask :: "nat \<Rightarrow> nat \<Rightarrow> nat \<Rightarrow> bitset" where
  "advance_mask base pos nxt =
     (let mask0 = bs_not (bs_zero base);
          (lead, trail) = make_sorted_array pos nxt;
          mask1 = bs_shr (bs_shl mask0 (size_wrap (lead + size_sub base trail))) lead
      in if nxt < pos then bs_not mask1 else mask1)"

definition advance_n :: "nat \<Rightarrow> rotor \<Rightarrow> nat \<Rightarrow> (rotor \<times> nat option \<times> nat) option" where
  "advance_n base r steps =
     (let next0 = size_wrap (position r + steps);
          knocks0 = size_wrap ((next0 div base) * bs_count (notches r));
          nxt = next0 mod base;
          mask = advance_mask base (position r) nxt;
          knocks = size_wrap (knocks0 + bs_count (bs_and (notches r) mask))
      in if nxt < base
         then Some (r\<lparr>position := nxt\<rparr>, (if knocks > 0 then Some knocks else None), nxt)
         else None)"

text \<open>\<open>n\<close> calls of \<open>advance()\<close> in sequence, with the sum of the counts given to the callback.\<close>

fun advance_times :: "nat \<Rightarrow> rotor \<Rightarrow> nat \<Rightarrow> (rotor \<times> nat) option" where
  "advance_times base r 0 = Some (r, 0)"
| "advance_times base r (Suc n) =
     (case advance base r of
        None \<Rightarrow> None
      | Some (r1, k, _) \<Rightarrow>
          (case advance_times base r1 n of
             None \<Rightarrow> None
           | Some (r2, cnt) \<Rightarrow> Some (r2, (case k of None \<Rightarrow> 0 | Some c \<Rightarrow> c) + cnt)))"

text \<open>
  A sequence of calls on one rotor, either \<open>advance()\<close> or \<open>advance(steps)\<close>.
\<close>

datatype rotor_call = Step | Steps nat

fun rotor_run :: "nat \<Rightarrow> rotor \<Rightarrow> rotor_call list \<Rightarrow> rotor option" where
  "rotor_run base r [] = Some r"
| "rotor_run base r (Step # cs) =
     (case advance base r of None \<Rightarrow> None | Some (r1, _, _) \<Rightarrow> rotor_run base r1 cs)"
| "rotor_run base r (Steps n # cs) =
     (case advance_n base r n of None \<Rightarrow> None | Some (r1, _, _) \<Rightarrow> rotor_run base r1 cs)"

text \<open>
  \<open>doForwardCipher\<close> and \<open>doReverseCipher\<close>: the \<open>assert\<close>, then the lookup at
  \<open>(position + val) % base\<close>, the sum computed in \<open>std::size_t\<close>.
\<close>

definition doForwardCipher :: "nat \<Rightarrow> rotor \<Rightarrow> nat \<Rightarrow> nat option" where
  "doForwardCipher base r val =
     (if val < base then
        (let i = size_wrap (position r + val) mod base
         in if i < length (forward_cipher r) then Some (forward_cipher r ! i) else None)
      else None)"

definition doReverseCipher :: "nat \<Rightarrow> rotor \<Rightarrow> nat \<Rightarrow> nat option" where
  "doReverseCipher base r val =
     (if val < base then
        (let i = size_wrap (position r + val) mod base
         in if i < length (reverse_cipher r) then reverse_cipher r ! i else None)
      else None)"

section \<open>EnigmaMachine\<close>

record machine =
  rotors :: "rotor list"
  reflector :: "nat list"

text \<open>
  The constructor copies the rotors and the reflector and, in the loop
  \<open>for (auto i = 0u; i < this->rotors.size() - 1; ++i)\<close>, sets the callback of rotor \<open>i\<close>
  to the lambda \<open>next_rotor.advance(knocks)\<close> on rotor \<open>i + 1\<close>; the last rotor keeps the
  callback it came with. With no rotor \<open>size() - 1\<close> wraps and the body reads outside the
  array; with more than \<open>2 ^ 32\<close> rotors the \<open>unsigned int\<close> counter never reaches the
  bound. The reflector's type fixes its length.
\<close>

definition EnigmaMachine :: "nat \<Rightarrow> rotor list \<Rightarrow> nat list \<Rightarrow> machine option" where
  "EnigmaMachine base rs rf =
     (if length rf = base \<and> rs \<noteq> [] \<and> length rs \<le> 2 ^ 32
      then Some \<lparr>rotors = rs, reflector = rf\<rparr>
      else None)"

text \<open>
  \<open>advance(steps)\<close> of a rotor of the assembly, with the callback the constructor gave
  it: the list holds this rotor and the ones after it. The callback of the last rotor
  is not the machine's and changes nothing in it (the empty list).
\<close>

fun advance_from :: "nat \<Rightarrow> rotor list \<Rightarrow> nat \<Rightarrow> rotor list option" where
  "advance_from base [] steps = Some []"
| "advance_from base (r # rs) steps =
     (case advance_n base r steps of
        None \<Rightarrow> None
      | Some (r1, None, _) \<Rightarrow> Some (r1 # rs)
      | Some (r1, Some knocks, _) \<Rightarrow>
          (case advance_from base rs knocks of
             None \<Rightarrow> None
           | Some rs1 \<Rightarrow> Some (r1 # rs1)))"

text \<open>\<open>void advance(std::size_t steps = 1u)\<close>: \<open>rotors[0].advance(steps)\<close>.\<close>

definition machine_advance :: "nat \<Rightarrow> machine \<Rightarrow> nat \<Rightarrow> machine option" where
  "machine_advance base m steps =
     (case rotors m of
        [] \<Rightarrow> None
      | r # rs \<Rightarrow>
          (case advance_from base (r # rs) steps of
             None \<Rightarrow> None
           | Some rs1 \<Rightarrow> Some (m\<lparr>rotors := rs1\<rparr>)))"

text \<open>One of the two loops of \<open>encode\<close>: the value goes through the rotors in the order given.\<close>

fun pass :: "(rotor \<Rightarrow> nat \<Rightarrow> nat option) \<Rightarrow> rotor list \<Rightarrow> nat \<Rightarrow> nat option" where
  "pass f [] val = Some val"
| "pass f (r # rs) val = (case f r val of None \<Rightarrow> None | Some v \<Rightarrow> pass f rs v)"

definition encode :: "nat \<Rightarrow> machine \<Rightarrow> nat \<Rightarrow> nat option" where
  "encode base m val =
     (case pass (doForwardCipher base) (rotors m) val of
        None \<Rightarrow> None
      | Some v \<Rightarrow>
          (if v < length (reflector m)
           then pass (doReverseCipher base) (rev (rotors m)) (reflector m ! v)
           else None))"

text \<open>\<open>encodeNext\<close>: \<open>advance()\<close> with its default argument, then \<open>encode(val)\<close>.\<close>

definition encodeNext :: "nat \<Rightarrow> machine \<Rightarrow> nat \<Rightarrow> (machine \<times> nat) option" where
  "encodeNext base m val =
     (case machine_advance base m 1 of
        None \<Rightarrow> None
      | Some m1 \<Rightarrow> (case encode base m1 val of None \<Rightarrow> None | Some v \<Rightarrow> Some (m1, v)))"

text \<open>
  Calls of the machine's public methods, and a sequence of them run on one machine: the
  result is the machine after the last call and what each call returned. \<open>encode\<close> is
  a \<open>const\<close> method: the machine it leaves is the machine it was called on.
\<close>

datatype machine_call = CallAdvance nat | CallEncode nat | CallEncodeNext nat

fun machine_do :: "nat \<Rightarrow> machine \<Rightarrow> machine_call \<Rightarrow> (machine \<times> nat option) option" where
  "machine_do base m (CallAdvance steps) =
     (case machine_advance base m steps of None \<Rightarrow> None | Some m1 \<Rightarrow> Some (m1, None))"
| "machine_do base m (CallEncode val) =
     (case encode base m val of None \<Rightarrow> None | Some v \<Rightarrow> Some (m, Some v))"
| "machine_do base m (CallEncodeNext val) =
     (case encodeNext base m val of None \<Rightarrow> None | Some (m1, v) \<Rightarrow> Some (m1, Some v))"

fun machine_run :: "nat \<Rightarrow> machine \<Rightarrow> machine_call list \<Rightarrow> (machine \<times> nat option list) option" where
  "machine_run base m [] = Some (m, [])"
| "machine_run base m (c # cs) =
     (case machine_do base m c of
        None \<Rightarrow> None
      | Some (m1, out) \<Rightarrow>
          (case machine_run base m1 cs of
             None \<Rightarrow> None
           | Some (m2, outs) \<Rightarrow> Some (m2, out # outs)))"

section \<open>Generator\<close>

text \<open>
  The generator holds a reference to the machine and the value \<open>seq_val\<close>; a draw changes
  both, so the state of the model is the pair.
\<close>

record generator =
  gen_machine :: machine
  seq_val :: nat

definition Generator :: "machine \<Rightarrow> nat \<Rightarrow> generator" where
  "Generator m seed = \<lparr>gen_machine = m, seq_val = seed\<rparr>"

definition gen_min :: "nat \<Rightarrow> nat" where
  "gen_min base = 0"

definition gen_max :: "nat \<Rightarrow> nat" where
  "gen_max base = size_sub base 1"

text \<open>\<open>operator()\<close>: \<open>seq_val = machine.encodeNext(seq_val); return seq_val\<close>.\<close>

definition draw :: "nat \<Rightarrow> generator \<Rightarrow> (generator \<times> nat) option" where
  "draw base g =
     (case encodeNext base (gen_machine g) (seq_val g) of
        None \<Rightarrow> None
      | Some (m1, v) \<Rightarrow> Some (g\<lparr>gen_machine := m1, seq_val := v\<rparr>, v))"

fun draws :: "nat \<Rightarrow> generator \<Rightarrow> nat \<Rightarrow> (generator \<times> nat list) option" where
  "draws base g 0 = Some (g, [])"
| "draws base g (Suc n) =
     (case draw base g of
        None \<Rightarrow> None
      | Some (g1, v) \<Rightarrow>
          (case draws base g1 n of None \<Rightarrow> None | Some (g2, vs) \<Rightarrow> Some (g2, v # vs)))"

section \<open>Well-formed states\<close>

text \<open>
  What the types and the operations guarantee of a rotor (the lengths, the position
  below \<open>base\<close>), what the data model asks of its tables (every entry a code point, every
  cell of the reverse table written), and the same for a machine. A rotor exists only
  when its constructor has returned, which bounds \<open>base\<close> by the range of the
  constructor's counter.
\<close>

definition base_ok :: "nat \<Rightarrow> bool" where
  "base_ok base \<longleftrightarrow> 0 < base \<and> base < 2 ^ 32"

definition rotor_shape :: "nat \<Rightarrow> rotor \<Rightarrow> bool" where
  "rotor_shape base r \<longleftrightarrow>
     length (forward_cipher r) = base \<and> length (reverse_cipher r) = base \<and>
     length (notches r) = base \<and> position r < base"

definition cell_ok :: "nat \<Rightarrow> nat option \<Rightarrow> bool" where
  "cell_ok base c = (case c of None \<Rightarrow> False | Some v \<Rightarrow> v < base)"

definition tables_ok :: "nat \<Rightarrow> rotor \<Rightarrow> bool" where
  "tables_ok base r \<longleftrightarrow>
     list_all (\<lambda>v. v < base) (forward_cipher r) \<and> list_all (cell_ok base) (reverse_cipher r)"

definition rotor_ok :: "nat \<Rightarrow> rotor \<Rightarrow> bool" where
  "rotor_ok base r \<longleftrightarrow> rotor_shape base r \<and> tables_ok base r"

definition machine_ok :: "nat \<Rightarrow> machine \<Rightarrow> bool" where
  "machine_ok base m \<longleftrightarrow>
     base_ok base \<and> rotors m \<noteq> [] \<and> list_all (rotor_ok base) (rotors m) \<and>
     length (reflector m) = base \<and> list_all (\<lambda>v. v < base) (reflector m)"

definition permutation_table :: "nat \<Rightarrow> nat list \<Rightarrow> bool" where
  "permutation_table base xs \<longleftrightarrow>
     length xs = base \<and> distinct xs \<and> list_all (\<lambda>v. v < base) xs"

section \<open>The composition the specification gives for \<open>encode\<close>\<close>

text \<open>
  A rotor's forward lookup is \<open>forwardCipher[(position + val) mod base]\<close>, its reverse
  lookup \<open>reverseCipher[(position + val) mod base]\<close>. The value goes through the forward
  lookups in assembly order, through the reflector, and through the reverse lookups in
  reverse assembly order: the last rotor of the list first.
\<close>

definition forward_lookup :: "nat \<Rightarrow> rotor \<Rightarrow> nat \<Rightarrow> nat" where
  "forward_lookup base r val = forward_cipher r ! ((position r + val) mod base)"

definition reverse_lookup :: "nat \<Rightarrow> rotor \<Rightarrow> nat \<Rightarrow> nat" where
  "reverse_lookup base r val = the (reverse_cipher r ! ((position r + val) mod base))"

fun forward_pass :: "nat \<Rightarrow> rotor list \<Rightarrow> nat \<Rightarrow> nat" where
  "forward_pass base [] val = val"
| "forward_pass base (r # rs) val = forward_pass base rs (forward_lookup base r val)"

fun reverse_pass :: "nat \<Rightarrow> rotor list \<Rightarrow> nat \<Rightarrow> nat" where
  "reverse_pass base [] val = val"
| "reverse_pass base (r # rs) val = reverse_lookup base r (reverse_pass base rs val)"

definition encode_spec :: "nat \<Rightarrow> machine \<Rightarrow> nat \<Rightarrow> nat" where
  "encode_spec base m val =
     reverse_pass base (rotors m) (reflector m ! forward_pass base (rotors m) val)"

section \<open>The tables of the demonstration program\<close>

text \<open>
  \<open>std::bitset<N>\<close> built from a string of \<open>N\<close> characters: the rightmost character is
  bit 0.
\<close>

definition bitset_of_string :: "string \<Rightarrow> bitset" where
  "bitset_of_string s = rev (map (\<lambda>c. c = CHR ''1'') s)"

definition cipherI :: "nat list" where
  "cipherI = [4, 10, 12, 5, 11, 6, 3, 16, 21, 25, 13, 19, 14,
              22, 24, 7, 23, 20, 18, 15, 0, 8, 1, 17, 2, 9]"

definition cipherII :: "nat list" where
  "cipherII = [0, 9, 3, 10, 18, 8, 17, 20, 23, 1, 11, 7, 22,
               19, 12, 2, 16, 6, 25, 13, 15, 24, 5, 21, 14, 4]"

definition cipherIII :: "nat list" where
  "cipherIII = [1, 3, 5, 7, 9, 11, 2, 15, 17, 19, 23, 21, 25,
                13, 24, 4, 8, 22, 6, 0, 10, 12, 20, 18, 16, 14]"

definition reflectorB :: "nat list" where
  "reflectorB = [24, 17, 20, 7, 16, 18, 11, 3, 15, 23, 13, 6, 14,
                 10, 12, 8, 4, 1, 5, 25, 2, 22, 21, 9, 0, 19]"

definition notchesI :: bitset where
  "notchesI = bitset_of_string ''00000000100000000000000000''"

definition notchesII :: bitset where
  "notchesII = bitset_of_string ''00000000000000000000100000''"

definition notchesIII :: bitset where
  "notchesIII = bitset_of_string ''00010000000000000000000000''"

text \<open>
  The three rotors as their constructor leaves them (the reverse tables are the ones it
  computes, see \<open>Rotor_rotorIII\<close> and its siblings), and the machine of \<open>main\<close>.
\<close>

definition rotorI :: rotor where
  "rotorI = \<lparr>forward_cipher = cipherI,
             reverse_cipher = map Some [20, 22, 24, 6, 0, 3, 5, 15, 21, 25, 1, 4, 2,
                                        10, 12, 19, 7, 23, 18, 11, 17, 8, 13, 16, 14, 9],
             position = 0, notches = notchesI\<rparr>"

definition rotorII :: rotor where
  "rotorII = \<lparr>forward_cipher = cipherII,
              reverse_cipher = map Some [0, 9, 15, 2, 25, 22, 17, 11, 5, 1, 3, 10, 14,
                                         19, 24, 20, 16, 6, 4, 13, 7, 23, 12, 8, 21, 18],
              position = 0, notches = notchesII\<rparr>"

definition rotorIII :: rotor where
  "rotorIII = \<lparr>forward_cipher = cipherIII,
               reverse_cipher = map Some [19, 0, 6, 1, 15, 2, 18, 3, 16, 4, 20, 5, 21,
                                          13, 25, 7, 24, 8, 23, 9, 22, 11, 17, 10, 14, 12],
               position = 0, notches = notchesIII\<rparr>"

definition enigma :: machine where
  "enigma = \<lparr>rotors = [rotorIII, rotorII, rotorI], reflector = reflectorB\<rparr>"

section \<open>Arithmetic and bit-set facts\<close>

lemma size_wrap_id: "n < 2 ^ 64 \<Longrightarrow> size_wrap n = n"
  by (simp add: size_wrap_def)

lemma wrap_sub:
  fixes m :: nat
  assumes "b \<le> a" and "a < m"
  shows "(a + m - b) mod m = a - b"
proof -
  from assms(1) have "a + m - b = (a - b) + m"
    by simp
  then have "(a + m - b) mod m = (a - b) mod m"
    by simp
  also from assms(2) have "\<dots> = a - b"
    by simp
  finally show ?thesis .
qed

lemma size_sub_id: "b \<le> a \<Longrightarrow> a < 2 ^ 64 \<Longrightarrow> size_sub a b = a - b"
  unfolding size_sub_def size_wrap_def by (rule wrap_sub)

lemma base_ok_pos: "base_ok base \<Longrightarrow> 0 < base"
  by (simp add: base_ok_def)

lemma base_ok_sum: "base_ok base \<Longrightarrow> a \<le> base \<Longrightarrow> b \<le> base \<Longrightarrow> a + b < 2 ^ 64"
  by (simp add: base_ok_def)

lemma replicate_26:
  "replicate 26 x = [x, x, x, x, x, x, x, x, x, x, x, x, x, x, x, x, x, x, x, x, x, x, x, x, x, x]"
  by (simp add: numeral_eq_Suc)

lemma upt_26:
  "[0..<26] = [0, 1, 2, 3, 4, 5, 6, 7, 8, 9, 10, 11, 12, 13, 14, 15, 16, 17, 18, 19, 20,
               21, 22, 23, 24, 25]"
  by (simp add: upt_rec)

lemmas tables =
  cipherI_def cipherII_def cipherIII_def reflectorB_def notchesI_def notchesII_def
  notchesIII_def bitset_of_string_def rotorI_def rotorII_def rotorIII_def enigma_def

section \<open>Single steps and the position\<close>

lemma rotor_shape_position:
  "rotor_shape base r \<Longrightarrow> p < base \<Longrightarrow> rotor_shape base (r\<lparr>position := p\<rparr>)"
  by (simp add: rotor_shape_def)

lemma advance_shape:
  assumes "base_ok base" and "rotor_shape base r"
  shows "advance base r =
     Some (r\<lparr>position := (position r + 1) mod base\<rparr>,
           (if notches r ! ((position r + 1) mod base) then Some 1 else None),
           (position r + 1) mod base)"
proof -
  from assms have p: "position r < base" and n: "length (notches r) = base"
    by (simp_all add: rotor_shape_def)
  from assms(1) p have w: "size_wrap (position r + 1) = position r + 1"
    by (intro size_wrap_id) (simp add: base_ok_def)
  have m: "(position r + 1) mod base = (if position r + 1 = base then 0 else position r + 1)"
    using p by simp
  have lt: "(position r + 1) mod base < base"
    using p by simp
  show ?thesis
    unfolding advance_def Let_def w using p n lt m by simp
qed

lemma advance_n_total:
  assumes "0 < base"
  shows "\<exists>k. advance_n base r steps =
       Some (r\<lparr>position := size_wrap (position r + steps) mod base\<rparr>, k,
             size_wrap (position r + steps) mod base)"
  using assms by (simp add: advance_n_def Let_def)

lemma rotor_run_shape:
  assumes "base_ok base"
  shows "rotor_shape base r \<Longrightarrow> \<exists>r1. rotor_run base r cs = Some r1 \<and> rotor_shape base r1"
proof (induction cs arbitrary: r)
  case Nil
  then show ?case by simp
next
  case (Cons c cs)
  from assms have pos: "0 < base" by (simp add: base_ok_def)
  show ?case
  proof (cases c)
    case Step
    let ?r1 = "r\<lparr>position := (position r + 1) mod base\<rparr>"
    have "rotor_shape base ?r1"
      using Cons.prems pos by (simp add: rotor_shape_position)
    from Cons.IH [OF this] show ?thesis
      using Step advance_shape [OF assms Cons.prems] by simp
  next
    case (Steps n)
    let ?r1 = "r\<lparr>position := size_wrap (position r + n) mod base\<rparr>"
    have "rotor_shape base ?r1"
      using Cons.prems pos by (simp add: rotor_shape_position)
    from Cons.IH [OF this] show ?thesis
      using Steps advance_n_total [OF pos, of r n] by auto
  qed
qed

lemma base_ok_26: "base_ok 26"
  by (simp add: base_ok_def)

lemma rotor_shape_rotorIII: "rotor_shape 26 (rotorIII\<lparr>position := p\<rparr>) \<longleftrightarrow> p < 26"
  by (simp add: rotor_shape_def tables)

text \<open>
  C6. For a rotor whose position is below \<open>base\<close>, \<open>advance()\<close> sets the position to
  \<open>(position + 1) mod base\<close>, calls the turnover callback, with the count 1, exactly when
  the bit of the new position is set in \<open>notches\<close>, and returns the new position.
\<close>

theorem advance_single_step:
  assumes "base_ok base" and "rotor_shape base r"
  shows "\<exists>r1 k p. advance base r = Some (r1, k, p) \<and>
           p = (position r + 1) mod base \<and>
           r1 = r\<lparr>position := p\<rparr> \<and>
           (k = Some 1 \<longleftrightarrow> notches r ! p) \<and> (k = None \<longleftrightarrow> \<not> notches r ! p)"
  using advance_shape [OF assms] by simp

theorem advance_single_step_witness:
  "base_ok 26 \<and> rotor_shape 26 (rotorIII\<lparr>position := 21\<rparr>) \<and>
   advance 26 (rotorIII\<lparr>position := 21\<rparr>) = Some (rotorIII\<lparr>position := 22\<rparr>, Some 1, 22)"
proof -
  have b: "base_ok 26" by (rule base_ok_26)
  have s: "rotor_shape 26 (rotorIII\<lparr>position := 21\<rparr>)"
    by (simp add: rotor_shape_rotorIII)
  have n: "notchesIII ! 22" by (simp add: tables)
  from advance_single_step [OF b s] obtain r1 k p where
    "advance 26 (rotorIII\<lparr>position := 21\<rparr>) = Some (r1, k, p)"
    "p = (position (rotorIII\<lparr>position := 21\<rparr>) + 1) mod 26"
    "r1 = rotorIII\<lparr>position := 21, position := p\<rparr>"
    "k = Some 1 \<longleftrightarrow> notches (rotorIII\<lparr>position := 21\<rparr>) ! p"
    by blast
  with n have "advance 26 (rotorIII\<lparr>position := 21\<rparr>) = Some (rotorIII\<lparr>position := 22\<rparr>, Some 1, 22)"
    by (simp add: rotorIII_def)
  with b s show ?thesis by simp
qed

text \<open>
  C7. From a rotor whose position is below \<open>base\<close>, every sequence of \<open>advance()\<close> and
  \<open>advance(steps)\<close> calls, with any step counts, runs to its end and leaves a position
  below \<open>base\<close>.
\<close>

theorem position_in_range:
  assumes "base_ok base" and "rotor_shape base r"
  shows "\<exists>r1. rotor_run base r cs = Some r1 \<and> position r1 < base"
  using rotor_run_shape [OF assms, of cs] by (auto simp add: rotor_shape_def)

theorem position_in_range_witness:
  "base_ok 26 \<and> rotor_shape 26 rotorIII \<and>
   (\<exists>r1. rotor_run 26 rotorIII [Steps 0, Step, Steps 1000, Steps (2 ^ 64 - 1)] = Some r1 \<and>
         position r1 < 26)"
proof -
  have b: "base_ok 26" by (rule base_ok_26)
  have s: "rotor_shape 26 rotorIII"
    using rotor_shape_rotorIII [of 0] by (simp add: rotorIII_def)
  from position_in_range [OF b s] b s show ?thesis by blast
qed

section \<open>The constructors\<close>

lemma fill_reverse_returns:
  assumes len: "length cipher < 2 ^ 32"
    and rng: "list_all (\<lambda>v. v < n) cipher"
    and dist: "distinct cipher"
  shows "i \<le> length cipher \<Longrightarrow> length rc = n \<Longrightarrow>
         (\<forall>j<i. rc ! (cipher ! j) = Some j) \<Longrightarrow>
         \<exists>rc1. fill_reverse cipher i rc = Some rc1 \<and> length rc1 = n \<and>
               (\<forall>j<length cipher. rc1 ! (cipher ! j) = Some j)"
proof (induction "length cipher - i" arbitrary: i rc)
  case 0
  then have "i = length cipher" by simp
  with 0 show ?case
    by (subst fill_reverse.simps) simp
next
  case (Suc k)
  then have lt: "i < length cipher" by simp
  let ?rc = "rc[cipher ! i := Some i]"
  from rng lt Suc.prems(2) have c: "cipher ! i < length rc"
    by (simp add: list_all_length)
  from lt len have w: "uint_wrap (i + 1) = i + 1"
    by (simp add: uint_wrap_def)
  have inv: "\<forall>j<i + 1. ?rc ! (cipher ! j) = Some j"
  proof (intro allI impI)
    fix j assume j: "j < i + 1"
    show "?rc ! (cipher ! j) = Some j"
    proof (cases "j = i")
      case True
      with c show ?thesis by simp
    next
      case False
      with j have ji: "j < i" by simp
      with lt dist have "cipher ! j \<noteq> cipher ! i"
        by (simp add: nth_eq_iff_index_eq)
      with Suc.prems(3) ji show ?thesis by simp
    qed
  qed
  have "k = length cipher - (i + 1)" using Suc.hyps(2) by simp
  from Suc.hyps(1) [OF this _ _ inv] lt Suc.prems(2)
  obtain rc1 where "fill_reverse cipher (i + 1) ?rc = Some rc1" "length rc1 = n"
      "\<forall>j<length cipher. rc1 ! (cipher ! j) = Some j"
    by auto
  with lt c w show ?case
    by (subst fill_reverse.simps) simp
qed

lemma permutation_table_onto:
  assumes "permutation_table base xs" and "c < base"
  shows "\<exists>j<base. xs ! j = c"
proof -
  from assms(1) have len: "length xs = base" and dist: "distinct xs"
    and sub: "set xs \<subseteq> {0..<base}"
    by (auto simp add: permutation_table_def list_all_iff)
  from dist len have "card (set xs) = card {0..<base}"
    by (simp add: distinct_card)
  with sub have "set xs = {0..<base}"
    by (intro card_subset_eq) simp_all
  with assms(2) have "c \<in> set xs" by simp
  with len show ?thesis
    by (auto simp add: in_set_conv_nth)
qed

lemma Rotor_returns:
  assumes b: "base_ok base" and p: "permutation_table base F" and n: "length N = base"
  shows "\<exists>r. Rotor base F N = Some r \<and> forward_cipher r = F \<and> notches r = N \<and>
             position r = 0 \<and> length (reverse_cipher r) = base \<and>
             (\<forall>i<base. reverse_cipher r ! (F ! i) = Some i)"
proof -
  from p have len: "length F = base" and dist: "distinct F"
    and rng: "list_all (\<lambda>v. v < base) F"
    by (simp_all add: permutation_table_def)
  from b len have l32: "length F < 2 ^ 32"
    by (simp add: base_ok_def)
  from fill_reverse_returns [OF l32 rng dist, of 0 "replicate base None"]
  obtain rc1 where "fill_reverse F 0 (replicate base None) = Some rc1" "length rc1 = base"
      "\<forall>j<length F. rc1 ! (F ! j) = Some j"
    by auto
  with len n show ?thesis
    by (simp add: Rotor_def)
qed

lemma Rotor_ok:
  assumes b: "base_ok base" and p: "permutation_table base F" and n: "length N = base"
    and r: "Rotor base F N = Some r"
  shows "rotor_ok base r"
proof -
  from Rotor_returns [OF b p n] r
  have f: "forward_cipher r = F" and nt: "notches r = N" and pos: "position r = 0"
    and len: "length (reverse_cipher r) = base"
    and inv: "\<forall>i<base. reverse_cipher r ! (F ! i) = Some i"
    by auto
  from p have lenF: "length F = base" and rng: "list_all (\<lambda>v. v < base) F"
    by (simp_all add: permutation_table_def)
  have "cell_ok base (reverse_cipher r ! c)" if "c < base" for c
  proof -
    from permutation_table_onto [OF p that] obtain j where "j < base" "F ! j = c"
      by blast
    with inv show ?thesis by (auto simp add: cell_ok_def)
  qed
  with len have "list_all (cell_ok base) (reverse_cipher r)"
    by (simp add: list_all_length)
  with f nt pos len lenF rng n b show ?thesis
    by (simp add: rotor_ok_def rotor_shape_def tables_ok_def base_ok_def)
qed

lemma advance_result:
  "advance base r = Some (r1, k, p) \<Longrightarrow> r1 = r\<lparr>position := p\<rparr>"
  by (auto simp add: advance_def Let_def split: if_splits)

lemma advance_n_result:
  "advance_n base r steps = Some (r1, k, p) \<Longrightarrow> r1 = r\<lparr>position := p\<rparr>"
  by (auto simp add: advance_n_def Let_def split: if_splits)

lemma rotor_run_tables:
  "rotor_run base r cs = Some r1 \<Longrightarrow>
   forward_cipher r1 = forward_cipher r \<and> reverse_cipher r1 = reverse_cipher r \<and>
   notches r1 = notches r"
proof (induction cs arbitrary: r)
  case Nil
  then show ?case by simp
next
  case (Cons c cs)
  show ?case
  proof (cases c)
    case Step
    with Cons.prems obtain r2 k p where a: "advance base r = Some (r2, k, p)"
      and run: "rotor_run base r2 cs = Some r1"
      by (auto split: option.splits)
    from advance_result [OF a] Cons.IH [OF run] show ?thesis by simp
  next
    case (Steps n)
    with Cons.prems obtain r2 k p where a: "advance_n base r n = Some (r2, k, p)"
      and run: "rotor_run base r2 cs = Some r1"
      by (auto split: option.splits)
    from advance_n_result [OF a] Cons.IH [OF run] show ?thesis by simp
  qed
qed

lemma Rotor_rotorI: "Rotor 26 cipherI notchesI = Some rotorI"
  by (simp add: Rotor_def fill_reverse.simps uint_wrap_def tables replicate_26)

lemma Rotor_rotorII: "Rotor 26 cipherII notchesII = Some rotorII"
  by (simp add: Rotor_def fill_reverse.simps uint_wrap_def tables replicate_26)

lemma Rotor_rotorIII: "Rotor 26 cipherIII notchesIII = Some rotorIII"
  by (simp add: Rotor_def fill_reverse.simps uint_wrap_def tables replicate_26)

lemma EnigmaMachine_enigma: "EnigmaMachine 26 [rotorIII, rotorII, rotorI] reflectorB = Some enigma"
  by (simp add: EnigmaMachine_def tables)

lemma permutation_table_cipherIII: "permutation_table 26 cipherIII"
  by (simp add: permutation_table_def cipherIII_def)

text \<open>
  C4. The constructor, given a permutation table \<open>F\<close> of \<open>[0, base)\<close>, returns a rotor whose
  reverse table \<open>R\<close> has \<open>R[F[i]] = i\<close> for every \<open>i\<close> below \<open>base\<close>; \<open>advance()\<close> and
  \<open>advance(steps)\<close> change neither table, so the relation holds after every sequence of
  calls.
\<close>

theorem reverse_is_inverse:
  assumes "base_ok base" and "permutation_table base F" and "length N = base"
  shows "\<exists>r. Rotor base F N = Some r \<and>
           (\<forall>i<base. reverse_cipher r ! (F ! i) = Some i) \<and>
           (\<forall>cs. \<exists>r1. rotor_run base r cs = Some r1 \<and> forward_cipher r1 = F \<and>
                 (\<forall>i<base. reverse_cipher r1 ! (forward_cipher r1 ! i) = Some i))"
proof -
  from Rotor_returns [OF assms] obtain r where r: "Rotor base F N = Some r"
    and f: "forward_cipher r = F"
    and inv: "\<forall>i<base. reverse_cipher r ! (F ! i) = Some i"
    by blast
  from Rotor_ok [OF assms r] have shape: "rotor_shape base r"
    by (simp add: rotor_ok_def)
  have "\<exists>r1. rotor_run base r cs = Some r1 \<and> forward_cipher r1 = F \<and>
          (\<forall>i<base. reverse_cipher r1 ! (forward_cipher r1 ! i) = Some i)" for cs
  proof -
    from rotor_run_shape [OF assms(1) shape, of cs] obtain r1
      where run: "rotor_run base r cs = Some r1" by blast
    from rotor_run_tables [OF run] f inv run show ?thesis by simp
  qed
  with r inv show ?thesis by blast
qed

theorem reverse_is_inverse_witness:
  "base_ok 26 \<and> permutation_table 26 cipherIII \<and> length notchesIII = 26 \<and>
   Rotor 26 cipherIII notchesIII = Some rotorIII \<and>
   reverse_cipher rotorIII ! (cipherIII ! 7) = Some 7 \<and>
   (\<exists>r1. rotor_run 26 rotorIII [Step, Steps 30] = Some r1 \<and> forward_cipher r1 = cipherIII \<and>
      reverse_cipher r1 ! (forward_cipher r1 ! 7) = Some 7)"
proof -
  have n: "length notchesIII = 26" by (simp add: tables)
  from reverse_is_inverse [OF base_ok_26 permutation_table_cipherIII n]
  have "(\<forall>i<26. reverse_cipher rotorIII ! (cipherIII ! i) = Some i) \<and>
        (\<forall>cs. \<exists>r1. rotor_run 26 rotorIII cs = Some r1 \<and> forward_cipher r1 = cipherIII \<and>
                 (\<forall>i<26. reverse_cipher r1 ! (forward_cipher r1 ! i) = Some i))"
    by (simp add: Rotor_rotorIII)
  moreover have "(7::nat) < 26" by simp
  ultimately have "reverse_cipher rotorIII ! (cipherIII ! 7) = Some 7 \<and>
      (\<exists>r1. rotor_run 26 rotorIII [Step, Steps 30] = Some r1 \<and> forward_cipher r1 = cipherIII \<and>
         reverse_cipher r1 ! (forward_cipher r1 ! 7) = Some 7)"
    by blast
  then show ?thesis
    using base_ok_26 permutation_table_cipherIII n Rotor_rotorIII by simp
qed

text \<open>
  C10. A rotor the constructor returns has position 0, whatever the arguments; the
  machine's constructor keeps the rotors it is given, so a machine built from rotors
  as constructed has every rotor at position 0.
\<close>

theorem fresh_position_zero:
  "(Rotor base F N = Some r \<longrightarrow> position r = 0) \<and>
   (EnigmaMachine base rs rf = Some m \<and> (\<forall>r1\<in>set rs. \<exists>F1 N1. Rotor base F1 N1 = Some r1) \<longrightarrow>
      rotors m = rs \<and> list_all (\<lambda>r1. position r1 = 0) (rotors m))"
proof -
  have rot: "position r1 = 0" if "Rotor base F1 N1 = Some r1" for r1 F1 N1
    using that by (auto simp add: Rotor_def split: if_splits option.splits)
  have "rotors m = rs" if "EnigmaMachine base rs rf = Some m"
    using that by (auto simp add: EnigmaMachine_def split: if_splits)
  with rot show ?thesis
    by (auto simp add: list_all_iff)
qed

theorem fresh_position_zero_witness:
  "Rotor 26 cipherIII notchesIII = Some rotorIII \<and> position rotorIII = 0 \<and>
   EnigmaMachine 26 [rotorIII, rotorII, rotorI] reflectorB = Some enigma \<and>
   list_all (\<lambda>r1. position r1 = 0) (rotors enigma)"
proof -
  have all: "\<forall>r1\<in>set [rotorIII, rotorII, rotorI]. \<exists>F1 N1. Rotor 26 F1 N1 = Some r1"
    using Rotor_rotorI Rotor_rotorII Rotor_rotorIII by auto
  from fresh_position_zero [of 26 cipherIII notchesIII rotorIII "[rotorIII, rotorII, rotorI]"
      reflectorB enigma] all
  show ?thesis
    by (auto simp add: Rotor_rotorIII EnigmaMachine_enigma)
qed

section \<open>Batch advance against single steps\<close>

text \<open>
  The position \<open>advance(n)\<close> leaves is the one \<open>n\<close> single steps leave, as long as
  \<open>position + n\<close> does not wrap; the counts given to the callback are another matter.
\<close>

lemma advance_times_position:
  assumes "base_ok base"
  shows "rotor_shape base r \<Longrightarrow>
         \<exists>c. advance_times base r n = Some (r\<lparr>position := (position r + n) mod base\<rparr>, c)"
proof (induction n arbitrary: r)
  case 0
  then have "position r mod base = position r"
    by (simp add: rotor_shape_def)
  then show ?case by simp
next
  case (Suc n)
  let ?r1 = "r\<lparr>position := (position r + 1) mod base\<rparr>"
  from Suc.prems base_ok_pos [OF assms] have "rotor_shape base ?r1"
    by (simp add: rotor_shape_position)
  from Suc.IH [OF this] obtain c where
    "advance_times base ?r1 n = Some (?r1\<lparr>position := (position ?r1 + n) mod base\<rparr>, c)"
    by blast
  moreover have "((position r + 1) mod base + n) mod base = (position r + Suc n) mod base"
    by (simp add: mod_add_left_eq)
  ultimately show ?case
    using advance_shape [OF assms Suc.prems] by simp
qed

lemma advance_n_position:
  assumes "base_ok base" and "rotor_shape base r" and "position r + n < 2 ^ 64"
  shows "map_option fst (advance_n base r n) = map_option fst (advance_times base r n)"
proof -
  from advance_times_position [OF assms(1,2), of n] obtain c where
    "advance_times base r n = Some (r\<lparr>position := (position r + n) mod base\<rparr>, c)"
    by blast
  moreover from advance_n_total [OF base_ok_pos [OF assms(1)], of r n] obtain k where
    "advance_n base r n =
       Some (r\<lparr>position := size_wrap (position r + n) mod base\<rparr>, k,
             size_wrap (position r + n) mod base)"
    by blast
  ultimately show ?thesis
    using size_wrap_id [OF assms(3)] by simp
qed

text \<open>
  The bits of the mask of \<open>advance(steps)\<close>. When the motion from \<open>position\<close> to \<open>next\<close>
  does not wrap, the positions passed are \<open>position + 1\<close> to \<open>next\<close>, and the mask holds the
  bits \<open>base - next\<close> to \<open>base - position - 1\<close>; when it wraps, the mask holds every other
  bit than \<open>base - position\<close> to \<open>base - next - 1\<close>.
\<close>

lemma bs_shl_ones_nth:
  "i < n \<Longrightarrow> bs_shl (bs_not (bs_zero n)) k ! i \<longleftrightarrow> k \<le> i"
  by (simp add: bs_shl_def bs_not_def bs_zero_def)

lemma bs_shr_nth:
  "i < length bs \<Longrightarrow> bs_shr bs k ! i \<longleftrightarrow> i + k < length bs \<and> bs ! (i + k)"
  by (simp add: bs_shr_def)

lemma length_bs_shl_ones: "length (bs_shl (bs_not (bs_zero n)) k) = n"
  by (simp add: bs_shl_def bs_not_def bs_zero_def)

lemma length_bs_shr: "length (bs_shr bs k) = length bs"
  by (simp add: bs_shr_def)

lemma advance_mask_nth:
  assumes "base < 2 ^ 64" and "p < base" and "nxt < base" and "i < base"
  shows "advance_mask base p nxt ! i \<longleftrightarrow>
     (if nxt < p then \<not> (base - p \<le> i \<and> i < base - nxt)
      else base - nxt \<le> i \<and> i < base - p)"
proof -
  let ?lead = "min p nxt" and ?trail = "max p nxt"
  let ?ones = "bs_not (bs_zero base)"
  from assms have t: "?trail \<le> base" and lt: "?lead \<le> ?trail"
    by simp_all
  from t assms(1) have "size_sub base ?trail = base - ?trail"
    by (rule size_sub_id)
  moreover from t lt assms(1) have "size_wrap (?lead + (base - ?trail)) = ?lead + (base - ?trail)"
    by (intro size_wrap_id) simp
  ultimately have k: "size_wrap (?lead + size_sub base ?trail) = ?lead + (base - ?trail)"
    by simp
  let ?mask1 = "bs_shr (bs_shl ?ones (?lead + (base - ?trail))) ?lead"
  have m1: "?mask1 ! i \<longleftrightarrow> base - ?trail \<le> i \<and> i < base - ?lead"
    using assms(4) by (auto simp add: bs_shr_nth length_bs_shl_ones bs_shl_ones_nth)
  have len: "length ?mask1 = base"
    by (simp add: length_bs_shr length_bs_shl_ones)
  show ?thesis
  proof (cases "nxt < p")
    case True
    with k have "advance_mask base p nxt = bs_not ?mask1"
      by (simp add: advance_mask_def make_sorted_array_def)
    with m1 len assms(4) True show ?thesis
      by (simp add: bs_not_def min_def max_def)
  next
    case False
    with k have "advance_mask base p nxt = ?mask1"
      by (simp add: advance_mask_def make_sorted_array_def)
    with m1 False show ?thesis
      by (simp add: min_def max_def)
  qed
qed

lemma advance_times_unfold:
  "0 < n \<Longrightarrow> advance_times base r n =
     (case advance base r of
        None \<Rightarrow> None
      | Some (r1, k, _) \<Rightarrow>
          (case advance_times base r1 (n - 1) of
             None \<Rightarrow> None
           | Some (r2, cnt) \<Rightarrow> Some (r2, (case k of None \<Rightarrow> 0 | Some c \<Rightarrow> c) + cnt)))"
  by (cases n) (auto split: option.splits)

lemma advance_rotorIII:
  "p < 26 \<Longrightarrow> advance 26 (rotorIII\<lparr>position := p\<rparr>) =
     Some (rotorIII\<lparr>position := (p + 1) mod 26\<rparr>,
           (if notchesIII ! ((p + 1) mod 26) then Some 1 else None), (p + 1) mod 26)"
  using advance_shape [OF base_ok_26, of "rotorIII\<lparr>position := p\<rparr>"]
  by (simp add: rotor_shape_rotorIII) (simp add: rotorIII_def)

lemma notchesIII_bits: "notchesIII = map (\<lambda>i. i = 22) [0..<26]"
  by (simp add: tables upt_26)

lemma advance_times_rotorIII_4:
  "advance_times 26 rotorIII 4 = Some (rotorIII\<lparr>position := 4\<rparr>, 0)"
proof -
  have "advance_times 26 (rotorIII\<lparr>position := 0\<rparr>) 4 = Some (rotorIII\<lparr>position := 4\<rparr>, 0)"
    by (simp add: advance_times_unfold advance_rotorIII notchesIII_bits upt_26)
  then show ?thesis by (simp add: rotorIII_def)
qed

lemma advance_mask_26_0_4: "advance_mask 26 0 4 = map (\<lambda>i. 22 \<le> i) [0..<26]"
  by (simp add: advance_mask_def make_sorted_array_def size_wrap_def size_sub_def
      bs_not_def bs_zero_def bs_shl_def bs_shr_def replicate_26 upt_26)

lemma advance_n_rotorIII_4:
  "advance_n 26 rotorIII 4 = Some (rotorIII\<lparr>position := 4\<rparr>, Some 1, 4)"
proof -
  have c: "bs_count notchesIII = 1"
    by (simp add: bs_count_def notchesIII_bits upt_26)
  have m: "bs_count (bs_and notchesIII (advance_mask 26 0 4)) = 1"
    by (simp add: advance_mask_26_0_4 notchesIII_bits bs_and_def bs_count_def upt_26)
  have "position rotorIII = 0" "notches rotorIII = notchesIII"
    by (simp_all add: rotorIII_def)
  with c m show ?thesis
    by (simp add: advance_n_def Let_def size_wrap_def)
qed

text \<open>
  C1. One call \<open>advance(n)\<close> should leave the position and give the callback the total
  count that \<open>n\<close> calls of \<open>advance()\<close> do. On the rotor III of the demonstration program,
  as constructed, \<open>advance(4)\<close> calls the callback with 1 although none of the positions
  1 to 4 has a notch and four calls of \<open>advance()\<close> never call it.
\<close>

theorem advance_n_counts_other_notches:
  "Rotor 26 cipherIII notchesIII = Some rotorIII \<and>
   advance_n 26 rotorIII 4 = Some (rotorIII\<lparr>position := 4\<rparr>, Some 1, 4) \<and>
   advance_times 26 rotorIII 4 = Some (rotorIII\<lparr>position := 4\<rparr>, 0)"
  using Rotor_rotorIII advance_n_rotorIII_4 advance_times_rotorIII_4 by simp

section \<open>Encoding\<close>

lemma doForwardCipher_ok:
  assumes "base_ok base" and "rotor_ok base r" and "val < base"
  shows "doForwardCipher base r val = Some (forward_lookup base r val) \<and>
         forward_lookup base r val < base"
proof -
  from assms(2) have p: "position r < base" and len: "length (forward_cipher r) = base"
    and rng: "list_all (\<lambda>v. v < base) (forward_cipher r)"
    by (simp_all add: rotor_ok_def rotor_shape_def tables_ok_def)
  have w: "size_wrap (position r + val) = position r + val"
    by (rule size_wrap_id, rule base_ok_sum [OF assms(1)])
      (rule less_imp_le [OF p], rule less_imp_le [OF assms(3)])
  from p have i: "(position r + val) mod base < base"
    by simp
  with rng len have "forward_cipher r ! ((position r + val) mod base) < base"
    by (simp add: list_all_length)
  with assms(3) i len w show ?thesis
    by (simp add: doForwardCipher_def forward_lookup_def)
qed

lemma doReverseCipher_ok:
  assumes "base_ok base" and "rotor_ok base r" and "val < base"
  shows "doReverseCipher base r val = Some (reverse_lookup base r val) \<and>
         reverse_lookup base r val < base"
proof -
  from assms(2) have p: "position r < base" and len: "length (reverse_cipher r) = base"
    and rng: "list_all (cell_ok base) (reverse_cipher r)"
    by (simp_all add: rotor_ok_def rotor_shape_def tables_ok_def)
  have w: "size_wrap (position r + val) = position r + val"
    by (rule size_wrap_id, rule base_ok_sum [OF assms(1)])
      (rule less_imp_le [OF p], rule less_imp_le [OF assms(3)])
  from p have i: "(position r + val) mod base < base"
    by simp
  with rng len have "cell_ok base (reverse_cipher r ! ((position r + val) mod base))"
    by (simp add: list_all_length)
  then obtain v where "reverse_cipher r ! ((position r + val) mod base) = Some v" "v < base"
    by (auto simp add: cell_ok_def split: option.splits)
  with assms(3) i len w show ?thesis
    by (simp add: doReverseCipher_def reverse_lookup_def)
qed

lemma pass_append:
  "pass f (xs @ ys) val = (case pass f xs val of None \<Rightarrow> None | Some v \<Rightarrow> pass f ys v)"
  by (induction xs arbitrary: val) (auto split: option.splits)

lemma pass_forward:
  assumes "base_ok base"
  shows "list_all (rotor_ok base) rs \<Longrightarrow> val < base \<Longrightarrow>
         pass (doForwardCipher base) rs val = Some (forward_pass base rs val) \<and>
         forward_pass base rs val < base"
proof (induction rs arbitrary: val)
  case Nil
  then show ?case by simp
next
  case (Cons r rs)
  from Cons.prems have r: "rotor_ok base r" and rs: "list_all (rotor_ok base) rs"
    by simp_all
  from doForwardCipher_ok [OF assms r Cons.prems(2)] Cons.IH [OF rs]
  show ?case by simp
qed

lemma pass_reverse:
  assumes "base_ok base" and "val < base"
  shows "list_all (rotor_ok base) rs \<Longrightarrow>
         pass (doReverseCipher base) (rev rs) val = Some (reverse_pass base rs val) \<and>
         reverse_pass base rs val < base"
proof (induction rs)
  case Nil
  with assms(2) show ?case by simp
next
  case (Cons r rs)
  from Cons.prems have r: "rotor_ok base r" and rs: "list_all (rotor_ok base) rs"
    by simp_all
  from Cons.IH [OF rs] have ih: "pass (doReverseCipher base) (rev rs) val =
      Some (reverse_pass base rs val)" and lt: "reverse_pass base rs val < base"
    by simp_all
  from doReverseCipher_ok [OF assms(1) r lt] ih
  show ?case by (simp add: pass_append)
qed

lemma encode_ok:
  assumes "machine_ok base m" and "val < base"
  shows "encode base m val = Some (encode_spec base m val) \<and> encode_spec base m val < base"
proof -
  from assms(1) have b: "base_ok base" and rs: "list_all (rotor_ok base) (rotors m)"
    and len: "length (reflector m) = base"
    and rng: "list_all (\<lambda>v. v < base) (reflector m)"
    by (simp_all add: machine_ok_def)
  from pass_forward [OF b rs assms(2)]
  have f: "pass (doForwardCipher base) (rotors m) val = Some (forward_pass base (rotors m) val)"
    and flt: "forward_pass base (rotors m) val < base"
    by simp_all
  from rng len flt have rlt: "reflector m ! forward_pass base (rotors m) val < base"
    by (simp add: list_all_length)
  from pass_reverse [OF b rlt rs] f flt len show ?thesis
    by (simp add: encode_def encode_spec_def)
qed

text \<open>
  A machine built by the constructors from permutation tables is well-formed
  (\<open>machine_advance_ok\<close> below keeps it so).
\<close>

lemma EnigmaMachine_ok:
  assumes "base_ok base"
    and "\<forall>r\<in>set rs. \<exists>F N. permutation_table base F \<and> length N = base \<and>
           Rotor base F N = Some r"
    and "permutation_table base rf"
    and "EnigmaMachine base rs rf = Some m"
  shows "machine_ok base m"
proof -
  from assms(4) have m: "rotors m = rs" "reflector m = rf" and ne: "rs \<noteq> []"
    by (auto simp add: EnigmaMachine_def split: if_splits)
  have "rotor_ok base r" if "r \<in> set rs" for r
  proof -
    from assms(2) that obtain F N where "permutation_table base F" "length N = base"
      "Rotor base F N = Some r"
      by blast
    with assms(1) show ?thesis by (intro Rotor_ok)
  qed
  then have "list_all (rotor_ok base) rs"
    by (simp add: list_all_iff)
  with assms(1,3) m ne show ?thesis
    by (simp add: machine_ok_def permutation_table_def)
qed

lemma machine_ok_enigma: "machine_ok 26 enigma"
  by (simp add: machine_ok_def base_ok_def rotor_ok_def rotor_shape_def tables_ok_def
      cell_ok_def tables)

text \<open>
  C3. On a well-formed machine and a code point \<open>val\<close> below \<open>base\<close>, \<open>encode(val)\<close> returns
  the value of the composition: the forward lookups \<open>forwardCipher[(position + val) mod
  base]\<close> of the rotors in assembly order, the reflector, and the reverse lookups
  \<open>reverseCipher[(position + val) mod base]\<close> in reverse assembly order, with the position
  added to the index in both directions.
\<close>

theorem encode_is_composition:
  assumes "machine_ok base m" and "val < base"
  shows "encode base m val = Some (encode_spec base m val)"
  using encode_ok [OF assms] by simp

theorem encode_is_composition_witness:
  "machine_ok 26 enigma \<and> (3::nat) < 26 \<and> encode 26 enigma 3 = Some 14 \<and>
   encode_spec 26 enigma 3 = 14"
proof -
  have v: "(3::nat) < 26" by simp
  have "encode_spec 26 enigma 3 = 14"
    by (simp add: encode_spec_def forward_lookup_def reverse_lookup_def tables)
  with encode_is_composition [OF machine_ok_enigma v] machine_ok_enigma show ?thesis
    by simp
qed

section \<open>Advancing the machine and encoding\<close>

lemma rotor_ok_position:
  "rotor_ok base r \<Longrightarrow> p < base \<Longrightarrow> rotor_ok base (r\<lparr>position := p\<rparr>)"
  by (simp add: rotor_ok_def rotor_shape_def tables_ok_def)

lemma advance_from_total:
  assumes "0 < base"
  shows "\<exists>rs1. advance_from base rs n = Some rs1 \<and> length rs1 = length rs \<and>
           (\<forall>i<length rs. rs1 ! i = rs ! i \<or>
              (\<exists>p<base. rs1 ! i = (rs ! i)\<lparr>position := p\<rparr>))"
proof (induction rs arbitrary: n)
  case Nil
  show ?case by simp
next
  case (Cons r rs)
  let ?p = "size_wrap (position r + n) mod base"
  from advance_n_total [OF assms, of r n] obtain k where
    a: "advance_n base r n = Some (r\<lparr>position := ?p\<rparr>, k, ?p)"
    by blast
  from assms have p: "?p < base" by simp
  show ?case
  proof (cases k)
    case None
    with a p show ?thesis
      by (auto simp add: nth_Cons split: nat.splits)
  next
    case (Some c)
    from Cons.IH [of c] obtain rs1 where "advance_from base rs c = Some rs1"
      "length rs1 = length rs"
      "\<forall>i<length rs. rs1 ! i = rs ! i \<or> (\<exists>p<base. rs1 ! i = (rs ! i)\<lparr>position := p\<rparr>)"
      by blast
    with a p Some show ?thesis
      by (auto simp add: nth_Cons split: nat.splits)
  qed
qed

lemma advance_from_ok:
  assumes "0 < base" and "list_all (rotor_ok base) rs"
  shows "\<exists>rs1. advance_from base rs n = Some rs1 \<and> length rs1 = length rs \<and>
           list_all (rotor_ok base) rs1"
proof -
  from advance_from_total [OF assms(1), of rs n] obtain rs1 where
    a: "advance_from base rs n = Some rs1" and len: "length rs1 = length rs"
    and each: "\<forall>i<length rs. rs1 ! i = rs ! i \<or>
                 (\<exists>p<base. rs1 ! i = (rs ! i)\<lparr>position := p\<rparr>)"
    by blast
  have "rotor_ok base (rs1 ! i)" if "i < length rs" for i
  proof -
    from assms(2) that have "rotor_ok base (rs ! i)"
      by (simp add: list_all_length)
    with each that show ?thesis
      by (auto simp add: rotor_ok_position)
  qed
  with a len show ?thesis
    by (simp add: list_all_length)
qed

lemma machine_advance_ok:
  assumes "machine_ok base m"
  shows "\<exists>m1. machine_advance base m n = Some m1 \<and> machine_ok base m1"
proof -
  from assms have pos: "0 < base" and rs: "list_all (rotor_ok base) (rotors m)"
    and ne: "rotors m \<noteq> []"
    by (simp_all add: machine_ok_def base_ok_def)
  from advance_from_ok [OF pos rs, of n] obtain rs1 where
    a: "advance_from base (rotors m) n = Some rs1" and len: "length rs1 = length (rotors m)"
    and ok: "list_all (rotor_ok base) rs1"
    by blast
  from ne len have "rs1 \<noteq> []" by auto
  with assms ok have "machine_ok base (m\<lparr>rotors := rs1\<rparr>)"
    by (simp add: machine_ok_def)
  with a ne show ?thesis
    by (auto simp add: machine_advance_def split: list.splits)
qed

lemma encodeNext_ok:
  assumes "machine_ok base m" and "val < base"
  shows "\<exists>m1 v. machine_advance base m 1 = Some m1 \<and> encode base m1 val = Some v \<and>
           encodeNext base m val = Some (m1, v) \<and> machine_ok base m1 \<and> v < base"
proof -
  from machine_advance_ok [OF assms(1), of 1] obtain m1 where
    a: "machine_advance base m 1 = Some m1" and ok: "machine_ok base m1"
    by blast
  from encode_ok [OF ok assms(2)] a ok show ?thesis
    by (simp add: encodeNext_def)
qed

lemma machine_run_encodes:
  "\<forall>c\<in>set cs. \<exists>v. c = CallEncode v \<Longrightarrow> machine_run base m cs = Some (m1, outs) \<Longrightarrow> m1 = m"
proof (induction cs arbitrary: outs)
  case Nil
  then show ?case by simp
next
  case (Cons c cs)
  from Cons.prems(1) obtain v where c: "c = CallEncode v" by auto
  with Cons.prems(2) obtain outs1 where "machine_run base m cs = Some (m1, outs1)"
    by (auto split: option.splits)
  with Cons.IH Cons.prems(1) show ?case by simp
qed

text \<open>
  C5. \<open>encode(val)\<close> leaves the machine as it was: after any sequence of \<open>encode\<close> calls the
  machine is the one they started on, and on a well-formed machine two \<open>encode(v)\<close> calls
  in a row return the same value.
\<close>

theorem encode_keeps_state:
  "(\<forall>cs m1 outs. (\<forall>c\<in>set cs. \<exists>v. c = CallEncode v) \<and> machine_run base m cs = Some (m1, outs)
       \<longrightarrow> m1 = m) \<and>
   (machine_ok base m \<and> val < base \<longrightarrow>
      (\<exists>v. machine_run base m [CallEncode val, CallEncode val] = Some (m, [Some v, Some v])))"
proof -
  have "\<exists>v. machine_run base m [CallEncode val, CallEncode val] = Some (m, [Some v, Some v])"
    if "machine_ok base m" and "val < base"
    using encode_ok [OF that] by simp
  then show ?thesis
    using machine_run_encodes [of _ base m] by blast
qed

theorem encode_keeps_state_witness:
  "machine_ok 26 enigma \<and> (3::nat) < 26 \<and>
   machine_run 26 enigma [CallEncode 3, CallEncode 3] = Some (enigma, [Some 14, Some 14])"
proof -
  have v: "(3::nat) < 26" by simp
  have "encode 26 enigma 3 = Some 14"
    using encode_ok [OF machine_ok_enigma v]
    by (simp add: encode_spec_def forward_lookup_def reverse_lookup_def tables)
  with encode_keeps_state [of 26 enigma 3] machine_ok_enigma show ?thesis
    by auto
qed

text \<open>
  C8. \<open>encodeNext(val)\<close> leaves the machine and returns the value that \<open>advance(1)\<close>, with
  the cascade it triggers, followed by \<open>encode(val)\<close> leave and return; on a well-formed
  machine and a code point below \<open>base\<close> both run to their end.
\<close>

theorem encodeNext_is_advance_then_encode:
  "map_option (\<lambda>(m1, outs). (m1, last outs)) (machine_run base m [CallEncodeNext val]) =
   map_option (\<lambda>(m1, outs). (m1, last outs)) (machine_run base m [CallAdvance 1, CallEncode val]) \<and>
   (machine_ok base m \<and> val < base \<longrightarrow>
      (\<exists>m1 v. machine_advance base m 1 = Some m1 \<and> encode base m1 val = Some v \<and>
         encodeNext base m val = Some (m1, v)))"
proof -
  have "map_option (\<lambda>(m1, outs). (m1, last outs)) (machine_run base m [CallEncodeNext val]) =
    map_option (\<lambda>(m1, outs). (m1, last outs)) (machine_run base m [CallAdvance 1, CallEncode val])"
    by (simp add: encodeNext_def split: option.splits)
  then show ?thesis
    using encodeNext_ok [of base m val] by blast
qed

lemma advance_mask_26_0_1: "advance_mask 26 0 1 = map (\<lambda>i. 25 \<le> i) [0..<26]"
  by (simp add: advance_mask_def make_sorted_array_def size_wrap_def size_sub_def
      bs_not_def bs_zero_def bs_shl_def bs_shr_def replicate_26 upt_26)

lemma advance_n_rotorIII_1:
  "advance_n 26 rotorIII 1 = Some (rotorIII\<lparr>position := 1\<rparr>, None, 1)"
proof -
  have c: "bs_count notchesIII = 1"
    by (simp add: bs_count_def notchesIII_bits upt_26)
  have m: "bs_count (bs_and notchesIII (advance_mask 26 0 1)) = 0"
    by (simp add: advance_mask_26_0_1 notchesIII_bits bs_and_def bs_count_def upt_26
        del: One_nat_def)
  have "position rotorIII = 0" "notches rotorIII = notchesIII"
    by (simp_all add: rotorIII_def)
  with c m show ?thesis
    by (simp add: advance_n_def Let_def size_wrap_def del: One_nat_def)
qed

lemma machine_advance_enigma_1:
  "machine_advance 26 enigma 1 =
     Some (enigma\<lparr>rotors := [rotorIII\<lparr>position := 1\<rparr>, rotorII, rotorI]\<rparr>)"
  by (simp add: machine_advance_def enigma_def advance_n_rotorIII_1 del: One_nat_def)

theorem encodeNext_is_advance_then_encode_witness:
  "machine_ok 26 enigma \<and> (3::nat) < 26 \<and>
   machine_advance 26 enigma 1 =
     Some (enigma\<lparr>rotors := [rotorIII\<lparr>position := 1\<rparr>, rotorII, rotorI]\<rparr>) \<and>
   encode 26 (enigma\<lparr>rotors := [rotorIII\<lparr>position := 1\<rparr>, rotorII, rotorI]\<rparr>) 3 = Some 15 \<and>
   encodeNext 26 enigma 3 =
     Some (enigma\<lparr>rotors := [rotorIII\<lparr>position := 1\<rparr>, rotorII, rotorI]\<rparr>, 15)"
proof -
  let ?m1 = "enigma\<lparr>rotors := [rotorIII\<lparr>position := 1\<rparr>, rotorII, rotorI]\<rparr>"
  have v: "(3::nat) < 26" by simp
  have ok: "machine_ok 26 ?m1"
    by (simp add: machine_ok_def base_ok_def rotor_ok_def rotor_shape_def tables_ok_def
        cell_ok_def tables)
  have e: "encode 26 ?m1 3 = Some 15"
    using encode_ok [OF ok v]
    by (simp add: encode_spec_def forward_lookup_def reverse_lookup_def tables)
  from encodeNext_is_advance_then_encode [of 26 enigma 3] machine_ok_enigma v
  obtain m1 w where "machine_advance 26 enigma 1 = Some m1" "encode 26 m1 3 = Some w"
    "encodeNext 26 enigma 3 = Some (m1, w)"
    by blast
  with e machine_ok_enigma show ?thesis
    by (simp add: machine_advance_enigma_1 del: One_nat_def)
qed

section \<open>The generator\<close>

lemma draws_ok:
  assumes "machine_ok base (gen_machine g)" and "seq_val g < base"
  shows "\<exists>g1 vs. draws base g n = Some (g1, vs) \<and> length vs = n \<and>
           list_all (\<lambda>v. v < base) vs \<and> machine_ok base (gen_machine g1) \<and> seq_val g1 < base"
  using assms
proof (induction n arbitrary: g)
  case 0
  then show ?case by simp
next
  case (Suc n)
  from encodeNext_ok [OF Suc.prems] obtain m1 v where
    e: "encodeNext base (gen_machine g) (seq_val g) = Some (m1, v)"
    and ok: "machine_ok base m1" and v: "v < base"
    by blast
  let ?g1 = "g\<lparr>gen_machine := m1, seq_val := v\<rparr>"
  from e have d: "draw base g = Some (?g1, v)"
    by (simp add: draw_def)
  from ok v Suc.IH [of ?g1] obtain g2 vs where
    "draws base ?g1 n = Some (g2, vs)" "length vs = n" "list_all (\<lambda>v. v < base) vs"
    "machine_ok base (gen_machine g2)" "seq_val g2 < base"
    by auto
  with d v show ?case by simp
qed

lemma gen_max_eq: "base_ok base \<Longrightarrow> gen_max base = base - 1"
  unfolding gen_max_def by (rule size_sub_id) (simp_all add: base_ok_def)

text \<open>
  C9. A generator over a well-formed machine (its tables hold code points only, as
  permutation tables and the reverse tables built from them do) with a seed below
  \<open>base\<close>: a draw stores \<open>machine.encodeNext(value)\<close> and returns it, every value of every
  run of draws is below \<open>base\<close>, \<open>min()\<close> is 0 and \<open>max()\<close> is \<open>base - 1\<close>.
\<close>

theorem generator_range:
  assumes "machine_ok base m" and "seed < base"
  shows "(\<exists>m1 v. encodeNext base m seed = Some (m1, v) \<and>
            draw base (Generator m seed) = Some (\<lparr>gen_machine = m1, seq_val = v\<rparr>, v)) \<and>
         (\<forall>n. \<exists>g1 vs. draws base (Generator m seed) n = Some (g1, vs) \<and> length vs = n \<and>
            list_all (\<lambda>v. v < base) vs) \<and>
         gen_min base = 0 \<and> gen_max base = base - 1"
proof -
  from encodeNext_ok [OF assms] obtain m1 v where "encodeNext base m seed = Some (m1, v)"
    by blast
  then have one: "\<exists>m1 v. encodeNext base m seed = Some (m1, v) \<and>
      draw base (Generator m seed) = Some (\<lparr>gen_machine = m1, seq_val = v\<rparr>, v)"
    by (simp add: draw_def Generator_def)
  have "\<exists>g1 vs. draws base (Generator m seed) n = Some (g1, vs) \<and> length vs = n \<and>
      list_all (\<lambda>v. v < base) vs" for n
    using draws_ok [of base "Generator m seed" n] assms
    by (auto simp add: Generator_def)
  moreover from assms(1) have "gen_max base = base - 1"
    by (intro gen_max_eq) (simp add: machine_ok_def)
  ultimately show ?thesis
    using one by (simp add: gen_min_def)
qed

theorem generator_range_witness:
  "machine_ok 26 enigma \<and> (3::nat) < 26 \<and>
   draw 26 (Generator enigma 3) =
     Some (\<lparr>gen_machine = enigma\<lparr>rotors := [rotorIII\<lparr>position := 1\<rparr>, rotorII, rotorI]\<rparr>,
            seq_val = 15\<rparr>, 15) \<and>
   (\<exists>g1 vs. draws 26 (Generator enigma 3) 10 = Some (g1, vs) \<and> length vs = 10 \<and>
      list_all (\<lambda>v. v < 26) vs) \<and>
   gen_min 26 = 0 \<and> gen_max 26 = 25"
proof -
  let ?m1 = "enigma\<lparr>rotors := [rotorIII\<lparr>position := 1\<rparr>, rotorII, rotorI]\<rparr>"
  have v: "(3::nat) < 26" by simp
  have ok: "machine_ok 26 ?m1"
    by (simp add: machine_ok_def base_ok_def rotor_ok_def rotor_shape_def tables_ok_def
        cell_ok_def tables)
  have "encode 26 ?m1 3 = Some 15"
    using encode_ok [OF ok v]
    by (simp add: encode_spec_def forward_lookup_def reverse_lookup_def tables)
  then have e: "encodeNext 26 enigma 3 = Some (?m1, 15)"
    by (simp add: encodeNext_def machine_advance_enigma_1 del: One_nat_def)
  from generator_range [OF machine_ok_enigma v] e machine_ok_enigma show ?thesis
    by simp
qed

section \<open>The cascade\<close>

lemma bs_count_le: "bs_count bs \<le> length bs"
  by (simp add: bs_count_def)

lemma bs_count_and_zero: "bs_count (bs_and a (bs_zero n)) = 0"
  by (auto simp add: bs_count_def bs_and_def bs_zero_def filter_empty_conv dest: set_zip_rightD)

lemma advance_mask_same:
  assumes "base < 2 ^ 64" and "p \<le> base"
  shows "advance_mask base p p = bs_zero base"
proof -
  from assms have s: "size_wrap (p + size_sub base p) = base"
    by (simp add: size_sub_id size_wrap_id)
  have l: "bs_shl (bs_not (bs_zero base)) base = bs_zero base"
    by (simp add: bs_shl_def bs_not_def bs_zero_def list_eq_iff_nth_eq)
  have r: "bs_shr (bs_zero base) p = bs_zero base"
    by (simp add: bs_shr_def bs_zero_def list_eq_iff_nth_eq)
  show ?thesis
    by (simp add: advance_mask_def make_sorted_array_def s l r)
qed

lemma advance_n_full_turn:
  assumes "base_ok base" and "rotor_shape base r"
  shows "advance_n base r base =
     Some (r, (if bs_count (notches r) = 0 then None else Some (bs_count (notches r))),
           position r)"
proof -
  from assms(2) have p: "position r < base" and len: "length (notches r) = base"
    by (simp_all add: rotor_shape_def)
  from assms(1) have b64: "base < 2 ^ 64"
    by (simp add: base_ok_def)
  have w: "size_wrap (position r + base) = position r + base"
    by (rule size_wrap_id, rule base_ok_sum [OF assms(1)]) (rule less_imp_le [OF p], rule order_refl)
  from p have d: "(position r + base) div base = 1"
    by (simp add: div_add_self2)
  from p have m: "(position r + base) mod base = position r"
    by simp
  have "bs_count (notches r) \<le> base"
    using bs_count_le [of "notches r"] len by simp
  with b64 have c: "size_wrap (bs_count (notches r)) = bs_count (notches r)"
    by (intro size_wrap_id) simp
  from p have mask: "advance_mask base (position r) (position r) = bs_zero base"
    by (intro advance_mask_same [OF b64]) simp
  from p show ?thesis
    by (simp add: advance_n_def Let_def w d m c mask bs_count_and_zero)
qed

lemma advance_from_head:
  assumes "0 < base"
  shows "\<exists>rs1. advance_from base (r # rs) n =
           Some (r\<lparr>position := size_wrap (position r + n) mod base\<rparr> # rs1) \<and>
           length rs1 = length rs"
proof -
  let ?p = "size_wrap (position r + n) mod base"
  from advance_n_total [OF assms, of r n] obtain k where
    a: "advance_n base r n = Some (r\<lparr>position := ?p\<rparr>, k, ?p)"
    by blast
  show ?thesis
  proof (cases k)
    case None
    with a show ?thesis by simp
  next
    case (Some c)
    from advance_from_total [OF assms, of rs c] obtain rs1 where
      "advance_from base rs c = Some rs1" "length rs1 = length rs"
      by blast
    with a Some show ?thesis by simp
  qed
qed

text \<open>
  One call of the machine's \<open>advance(steps)\<close> calls \<open>advance(steps)\<close> of the first rotor only;
  the other rotors change only when that call gives its callback a count, and then by
  the second rotor's \<open>advance\<close> of that count, with its own callback. A rotor that is
  advanced by exactly \<open>base\<close> steps in one call keeps its position and advances the next
  rotor by its number of notches (not at all when it has none): there the mask is empty.
\<close>

lemma machine_advance_cascade:
  assumes "base_ok base" and "rotors m = r0 # rs" and "list_all (rotor_shape base) (rotors m)"
  shows "(\<exists>r1 k p. advance_n base r0 steps = Some (r1, k, p) \<and>
            machine_advance base m steps =
              (case k of
                 None \<Rightarrow> Some (m\<lparr>rotors := r1 # rs\<rparr>)
               | Some n \<Rightarrow> map_option (\<lambda>rs1. m\<lparr>rotors := r1 # rs1\<rparr>) (advance_from base rs n))) \<and>
         (\<forall>i<length (rotors m).
            advance_from base (drop i (rotors m)) base =
              (if bs_count (notches (rotors m ! i)) = 0 then Some (drop i (rotors m))
               else map_option ((#) (rotors m ! i))
                      (advance_from base (drop (Suc i) (rotors m))
                         (bs_count (notches (rotors m ! i)))))) \<and>
         (\<exists>m1. machine_advance base m base = Some m1 \<and>
            length (rotors m1) = length (rotors m) \<and> rotors m1 ! 0 = r0 \<and>
            (1 < length (rotors m) \<longrightarrow>
               position (rotors m1 ! 1) =
                 (position (rotors m ! 1) + bs_count (notches r0)) mod base))"
proof -
  from assms(1) have pos: "0 < base" by (rule base_ok_pos)
  from assms(1) have b64: "base < 2 ^ 64" by (simp add: base_ok_def)
  have first: "\<exists>r1 k p. advance_n base r0 steps = Some (r1, k, p) \<and>
      machine_advance base m steps =
        (case k of
           None \<Rightarrow> Some (m\<lparr>rotors := r1 # rs\<rparr>)
         | Some n \<Rightarrow> map_option (\<lambda>rs1. m\<lparr>rotors := r1 # rs1\<rparr>) (advance_from base rs n))"
  proof -
    from advance_n_total [OF pos, of r0 steps] obtain r1 k p where
      a: "advance_n base r0 steps = Some (r1, k, p)"
      by blast
    with assms(2) show ?thesis
      by (cases k) (auto simp add: machine_advance_def split: option.splits)
  qed
  have link: "advance_from base (drop i (rotors m)) base =
      (if bs_count (notches (rotors m ! i)) = 0 then Some (drop i (rotors m))
       else map_option ((#) (rotors m ! i))
              (advance_from base (drop (Suc i) (rotors m)) (bs_count (notches (rotors m ! i)))))"
    if i: "i < length (rotors m)" for i
  proof -
    from assms(3) i have "rotor_shape base (rotors m ! i)"
      by (simp add: list_all_length)
    from advance_n_full_turn [OF assms(1) this]
    have "advance_from base (rotors m ! i # drop (Suc i) (rotors m)) base =
      (if bs_count (notches (rotors m ! i)) = 0
       then Some (rotors m ! i # drop (Suc i) (rotors m))
       else map_option ((#) (rotors m ! i))
              (advance_from base (drop (Suc i) (rotors m)) (bs_count (notches (rotors m ! i)))))"
      by (auto split: option.splits)
    with i show ?thesis
      by (simp add: Cons_nth_drop_Suc)
  qed
  have full: "\<exists>m1. machine_advance base m base = Some m1 \<and>
      length (rotors m1) = length (rotors m) \<and> rotors m1 ! 0 = r0 \<and>
      (1 < length (rotors m) \<longrightarrow>
         position (rotors m1 ! 1) = (position (rotors m ! 1) + bs_count (notches r0)) mod base)"
  proof -
    let ?c = "bs_count (notches r0)"
    from assms(2,3) have s0: "rotor_shape base r0" by simp
    note a = advance_n_full_turn [OF assms(1) s0]
    show ?thesis
    proof (cases "?c = 0")
      case True
      have "position (rotors m ! 1) = position (rotors m ! 1) mod base"
        if "1 < length (rotors m)"
      proof -
        from that assms(3) have "rotor_shape base (rotors m ! 1)"
          by (simp add: list_all_length)
        then show ?thesis by (simp add: rotor_shape_def)
      qed
      with True a assms(2) show ?thesis
        by (auto simp add: machine_advance_def)
    next
      case False
      show ?thesis
      proof (cases rs)
        case Nil
        with False a assms(2) show ?thesis
          by (simp add: machine_advance_def)
      next
        case (Cons r1 rs')
        from s0 have "?c \<le> base"
          using bs_count_le [of "notches r0"] by (simp add: rotor_shape_def)
        moreover from Cons assms(2,3) have "position r1 < base"
          by (simp add: rotor_shape_def)
        ultimately have w: "size_wrap (position r1 + ?c) = position r1 + ?c"
          by (intro size_wrap_id base_ok_sum [OF assms(1)]) simp_all
        from advance_from_head [OF pos, of r1 rs' ?c] w obtain rs1 where
          "advance_from base (r1 # rs') ?c =
             Some (r1\<lparr>position := (position r1 + ?c) mod base\<rparr> # rs1)"
          "length rs1 = length rs'"
          by auto
        with False a assms(2) Cons show ?thesis
          by (simp add: machine_advance_def)
      qed
    qed
  qed
  from first link full show ?thesis by blast
qed

lemma notchesII_bits: "notchesII = map (\<lambda>i. i = 5) [0..<26]"
  by (simp add: tables upt_26)

lemma advance_n_rotorII_1:
  "advance_n 26 rotorII 1 = Some (rotorII\<lparr>position := 1\<rparr>, None, 1)"
proof -
  have c: "bs_count notchesII = 1"
    by (simp add: bs_count_def notchesII_bits upt_26)
  have m: "bs_count (bs_and notchesII (advance_mask 26 0 1)) = 0"
    by (simp add: advance_mask_26_0_1 notchesII_bits bs_and_def bs_count_def upt_26
        del: One_nat_def)
  have "position rotorII = 0" "notches rotorII = notchesII"
    by (simp_all add: rotorII_def)
  with c m show ?thesis
    by (simp add: advance_n_def Let_def size_wrap_def del: One_nat_def)
qed

lemma machine_advance_alt:
  "rotors m \<noteq> [] \<Longrightarrow>
   machine_advance base m steps =
     map_option (\<lambda>rs1. m\<lparr>rotors := rs1\<rparr>) (advance_from base (rotors m) steps)"
  by (cases "rotors m") (auto simp add: machine_advance_def split: option.splits)

lemma machine_advance_cascade_enigma:
  "base_ok 26 \<and> rotors enigma = rotorIII # [rotorII, rotorI] \<and>
   list_all (rotor_shape 26) (rotors enigma) \<and> bs_count (notches rotorIII) = 1 \<and>
   machine_advance 26 enigma 26 =
     Some (enigma\<lparr>rotors := [rotorIII, rotorII\<lparr>position := 1\<rparr>, rotorI]\<rparr>)"
proof -
  have rs: "rotors enigma = rotorIII # [rotorII, rotorI]"
    by (simp add: enigma_def)
  have shape: "list_all (rotor_shape 26) (rotors enigma)"
    using machine_ok_enigma by (simp add: machine_ok_def rotor_ok_def list_all_iff)
  have c: "bs_count (notches rotorIII) = 1"
    by (simp add: bs_count_def rotorIII_def notchesIII_bits upt_26)
  have len: "0 < length (rotors enigma)" and n0: "rotors enigma ! 0 = rotorIII"
    and d1: "drop (Suc 0) (rotors enigma) = [rotorII, rotorI]"
    by (simp_all add: rs)
  from machine_advance_cascade [OF base_ok_26 rs shape, of 26]
  have "\<forall>i<length (rotors enigma).
      advance_from 26 (drop i (rotors enigma)) 26 =
        (if bs_count (notches (rotors enigma ! i)) = 0 then Some (drop i (rotors enigma))
         else map_option ((#) (rotors enigma ! i))
                (advance_from 26 (drop (Suc i) (rotors enigma))
                   (bs_count (notches (rotors enigma ! i)))))"
    by blast
  with len have "advance_from 26 (drop 0 (rotors enigma)) 26 =
      (if bs_count (notches (rotors enigma ! 0)) = 0 then Some (drop 0 (rotors enigma))
       else map_option ((#) (rotors enigma ! 0))
              (advance_from 26 (drop (Suc 0) (rotors enigma))
                 (bs_count (notches (rotors enigma ! 0)))))"
    by blast
  then have "advance_from 26 (rotors enigma) 26 =
      map_option ((#) rotorIII) (advance_from 26 [rotorII, rotorI] 1)"
    by (simp add: n0 d1 c del: One_nat_def)
  also have "\<dots> = Some [rotorIII, rotorII\<lparr>position := 1\<rparr>, rotorI]"
    by (simp add: advance_n_rotorII_1 del: One_nat_def)
  finally have "machine_advance 26 enigma 26 =
      Some (enigma\<lparr>rotors := [rotorIII, rotorII\<lparr>position := 1\<rparr>, rotorI]\<rparr>)"
    by (simp add: machine_advance_alt len [simplified])
  with base_ok_26 rs shape c show ?thesis by simp
qed

section \<open>The cascade over several calls\<close>

text \<open>
  What one call \<open>advance(1)\<close> gives the callback: away from the wrap the count is 1 when
  the bit \<open>base - 1 - position\<close> is set, whatever the bit of the new position; on the wrap
  from \<open>base - 1\<close> to 0 it is the number of all notches, and one more when bit 0 is set.
\<close>

lemma bs_count_and_card:
  assumes "length N = n" and "length M = n"
  shows "bs_count (bs_and N M) = card {i. i < n \<and> N ! i \<and> M ! i}"
proof -
  have "bs_count (bs_and N M) = length (filter (\<lambda>(x, y). x \<and> y) (zip N M))"
    by (simp add: bs_count_def bs_and_def filter_map comp_def)
  also have "\<dots> = card {i. i < length (zip N M) \<and> (\<lambda>(x, y). x \<and> y) (zip N M ! i)}"
    by (rule length_filter_conv_card)
  also from assms have "{i. i < length (zip N M) \<and> (\<lambda>(x, y). x \<and> y) (zip N M ! i)} =
      {i. i < n \<and> N ! i \<and> M ! i}"
    by auto
  finally show ?thesis .
qed

lemma bs_count_and_single:
  assumes "length N = n" and "length M = n" and "j < n" and "\<forall>i<n. M ! i \<longleftrightarrow> i = j"
  shows "bs_count (bs_and N M) = (if N ! j then 1 else 0)"
proof -
  from assms(3,4) have "{i. i < n \<and> N ! i \<and> M ! i} = (if N ! j then {j} else {})"
    by auto
  with bs_count_and_card [OF assms(1,2)] show ?thesis
    by simp
qed

lemma length_advance_mask: "length (advance_mask base p nxt) = base"
  by (simp add: advance_mask_def make_sorted_array_def bs_not_def bs_shr_def bs_shl_def
      bs_zero_def Let_def split: prod.splits)

lemma advance_n_one:
  assumes "base_ok base" and "rotor_shape base r" and "position r + 1 < base"
  shows "advance_n base r 1 =
     Some (r\<lparr>position := position r + 1\<rparr>,
           (if notches r ! (base - 1 - position r) then Some 1 else None), position r + 1)"
proof -
  let ?p = "position r"
  from assms(2) have len: "length (notches r) = base"
    by (simp add: rotor_shape_def)
  from assms(1) have b64: "base < 2 ^ 64"
    by (simp add: base_ok_def)
  from assms(3) b64 have w: "size_wrap (?p + 1) = ?p + 1"
    by (intro size_wrap_id) simp
  from assms(3) have d: "(?p + 1) div base = 0" and m: "(?p + 1) mod base = ?p + 1"
    by simp_all
  have z: "size_wrap 0 = 0"
    by (simp add: size_wrap_def)
  have j: "base - 1 - ?p < base"
    using assms(3) by simp
  have bits: "\<forall>i<base. advance_mask base ?p (?p + 1) ! i \<longleftrightarrow> i = base - 1 - ?p"
  proof (intro allI impI)
    fix i assume i: "i < base"
    from assms(3) have "?p < base" by simp
    from advance_mask_nth [OF b64 this assms(3) i] assms(3) i
    show "advance_mask base ?p (?p + 1) ! i \<longleftrightarrow> i = base - 1 - ?p"
      by auto
  qed
  note c = bs_count_and_single [OF len length_advance_mask j bits]
  have s1: "size_wrap 1 = 1"
    by (simp add: size_wrap_def)
  from assms(3) show ?thesis
    by (simp add: advance_n_def Let_def w d m z c s1 del: One_nat_def)
qed

lemma advance_n_one_wrap:
  assumes "base_ok base" and "rotor_shape base r" and "position r + 1 = base" and "1 < base"
  shows "advance_n base r 1 =
     Some (r\<lparr>position := 0\<rparr>,
           (if 0 < bs_count (notches r) + (if notches r ! 0 then 1 else 0)
            then Some (bs_count (notches r) + (if notches r ! 0 then 1 else 0)) else None), 0)"
proof -
  let ?p = "position r"
  let ?c = "bs_count (notches r)"
  from assms(2) have len: "length (notches r) = base"
    by (simp add: rotor_shape_def)
  from assms(1) have b64: "base < 2 ^ 64"
    by (simp add: base_ok_def)
  from assms(3) b64 have w: "size_wrap (?p + 1) = base"
    using size_wrap_id [of base] by simp
  from assms(4) have d: "base div base = 1" and m: "base mod base = 0"
    by simp_all
  have cle: "?c \<le> base"
    using bs_count_le [of "notches r"] len by simp
  with b64 have c1: "size_wrap ?c = ?c"
    by (intro size_wrap_id) simp
  have p: "?p < base" "0 < ?p" "0 < base"
    using assms(3,4) by simp_all
  have bits: "\<forall>i<base. advance_mask base ?p 0 ! i \<longleftrightarrow> i = 0"
  proof (intro allI impI)
    fix i assume i: "i < base"
    from advance_mask_nth [OF b64 p(1) p(3) i] assms(3) p i
    show "advance_mask base ?p 0 ! i \<longleftrightarrow> i = 0"
      by auto
  qed
  note c = bs_count_and_single [OF len length_advance_mask p(3) bits]
  from cle b64 have "?c + (if notches r ! 0 then 1 else 0) < 2 ^ 64"
    using base_ok_sum [OF assms(1), of ?c 1] assms(4) by auto
  then have s1: "size_wrap (?c + (if notches r ! 0 then 1 else 0)) =
      ?c + (if notches r ! 0 then 1 else 0)"
    by (rule size_wrap_id)
  from p show ?thesis
    by (simp add: advance_n_def Let_def w d m c1 c s1 del: One_nat_def)
qed

lemma notchesI_bits: "notchesI = map (\<lambda>i. i = 17) [0..<26]"
  by (simp add: tables upt_26)

lemma rotor_shape_demo:
  "p < 26 \<Longrightarrow> rotor_shape 26 (rotorIII\<lparr>position := p\<rparr>)"
  "p < 26 \<Longrightarrow> rotor_shape 26 (rotorII\<lparr>position := p\<rparr>)"
  "p < 26 \<Longrightarrow> rotor_shape 26 (rotorI\<lparr>position := p\<rparr>)"
  by (simp_all add: rotor_shape_def tables)

lemma notches_demo:
  assumes "i < 26"
  shows "notches rotorIII ! i \<longleftrightarrow> i = 22"
    and "notches rotorII ! i \<longleftrightarrow> i = 5"
    and "notches rotorI ! i \<longleftrightarrow> i = 17"
  using assms
  by (simp_all add: rotorIII_def rotorII_def rotorI_def notchesIII_bits notchesII_bits
      notchesI_bits del: upt_Suc)

lemma bs_count_demo:
  "bs_count (notches rotorIII) = 1"
  "bs_count (notches rotorII) = 1"
  "bs_count (notches rotorI) = 1"
  by (simp_all add: bs_count_def rotorIII_def rotorII_def rotorI_def notchesIII_bits
      notchesII_bits notchesI_bits upt_26)

lemma advance_n_one_demo:
  assumes "p + 1 < 26"
  shows "advance_n 26 (rotorIII\<lparr>position := p\<rparr>) 1 =
           Some (rotorIII\<lparr>position := p + 1\<rparr>, (if p = 3 then Some 1 else None), p + 1)"
    and "advance_n 26 (rotorII\<lparr>position := p\<rparr>) 1 =
           Some (rotorII\<lparr>position := p + 1\<rparr>, (if p = 20 then Some 1 else None), p + 1)"
    and "advance_n 26 (rotorI\<lparr>position := p\<rparr>) 1 =
           Some (rotorI\<lparr>position := p + 1\<rparr>, (if p = 8 then Some 1 else None), p + 1)"
proof -
  from assms have p: "p < 26" by simp
  from assms have e: "25 - p = 22 \<longleftrightarrow> p = 3" "25 - p = 5 \<longleftrightarrow> p = 20" "25 - p = 17 \<longleftrightarrow> p = 8"
    by auto
  from assms have lt: "25 - p < 26" by simp
  show "advance_n 26 (rotorIII\<lparr>position := p\<rparr>) 1 =
      Some (rotorIII\<lparr>position := p + 1\<rparr>, (if p = 3 then Some 1 else None), p + 1)"
    using advance_n_one [OF base_ok_26 rotor_shape_demo(1) [OF p]] assms e
    by (simp add: notches_demo(1) [OF lt] del: One_nat_def)
  show "advance_n 26 (rotorII\<lparr>position := p\<rparr>) 1 =
      Some (rotorII\<lparr>position := p + 1\<rparr>, (if p = 20 then Some 1 else None), p + 1)"
    using advance_n_one [OF base_ok_26 rotor_shape_demo(2) [OF p]] assms e
    by (simp add: notches_demo(2) [OF lt] del: One_nat_def)
  show "advance_n 26 (rotorI\<lparr>position := p\<rparr>) 1 =
      Some (rotorI\<lparr>position := p + 1\<rparr>, (if p = 8 then Some 1 else None), p + 1)"
    using advance_n_one [OF base_ok_26 rotor_shape_demo(3) [OF p]] assms e
    by (simp add: notches_demo(3) [OF lt] del: One_nat_def)
qed

lemma advance_n_one_wrap_demo:
  "advance_n 26 (rotorIII\<lparr>position := 25\<rparr>) 1 = Some (rotorIII\<lparr>position := 0\<rparr>, Some 1, 0)"
  "advance_n 26 (rotorII\<lparr>position := 25\<rparr>) 1 = Some (rotorII\<lparr>position := 0\<rparr>, Some 1, 0)"
proof -
  have p: "(25::nat) < 26" and z: "(0::nat) < 26" by simp_all
  show "advance_n 26 (rotorIII\<lparr>position := 25\<rparr>) 1 =
      Some (rotorIII\<lparr>position := 0\<rparr>, Some 1, 0)"
    using advance_n_one_wrap [OF base_ok_26 rotor_shape_demo(1) [OF p]]
    by (simp add: notches_demo(1) [OF z] bs_count_demo del: One_nat_def)
  show "advance_n 26 (rotorII\<lparr>position := 25\<rparr>) 1 =
      Some (rotorII\<lparr>position := 0\<rparr>, Some 1, 0)"
    using advance_n_one_wrap [OF base_ok_26 rotor_shape_demo(2) [OF p]]
    by (simp add: notches_demo(2) [OF z] bs_count_demo del: One_nat_def)
qed

lemma advance_n_full_turn_demo:
  "advance_n 26 (rotorIII\<lparr>position := 0\<rparr>) 26 = Some (rotorIII\<lparr>position := 0\<rparr>, Some 1, 0)"
proof -
  have p: "(0::nat) < 26" by simp
  show ?thesis
    using advance_n_full_turn [OF base_ok_26 rotor_shape_demo(1) [OF p]]
    by (simp add: bs_count_demo)
qed

lemma enigma_positions:
  "enigma = \<lparr>rotors = [rotorIII\<lparr>position := 0\<rparr>, rotorII\<lparr>position := 0\<rparr>,
                        rotorI\<lparr>position := 0\<rparr>], reflector = reflectorB\<rparr>"
  by (simp add: enigma_def rotorIII_def rotorII_def rotorI_def)

lemma one_call_of_26:
  "map_option (\<lambda>(m, outs). map position (rotors m)) (machine_run 26 enigma [CallAdvance 26]) =
     Some [0, 1, 0]"
  by (simp add: enigma_positions machine_advance_def advance_n_full_turn_demo
      advance_n_one_demo advance_n_one_wrap_demo del: One_nat_def)

lemma twenty_six_calls_of_1:
  "map_option (\<lambda>(m, outs). map position (rotors m))
     (machine_run 26 enigma (replicate 26 (CallAdvance 1))) = Some [0, 2, 0]"
  by (simp add: replicate_26 enigma_positions machine_advance_def advance_n_full_turn_demo
      advance_n_one_demo advance_n_one_wrap_demo del: One_nat_def)

lemma twenty_six_calls_of_26:
  "map_option (\<lambda>(m, outs). map position (rotors m))
     (machine_run 26 enigma (replicate 26 (CallAdvance 26))) = Some [0, 0, 2]"
  by (simp add: replicate_26 enigma_positions machine_advance_def advance_n_full_turn_demo
      advance_n_one_demo advance_n_one_wrap_demo del: One_nat_def)

lemma five_calls_of_26:
  "map_option (\<lambda>(m, outs). map position (rotors m))
     (machine_run 26 enigma
        [CallAdvance 26, CallAdvance 26, CallAdvance 26, CallAdvance 26, CallAdvance 26]) =
     Some [0, 5, 0]"
  by (simp add: enigma_positions machine_advance_def advance_n_full_turn_demo
      advance_n_one_demo advance_n_one_wrap_demo del: One_nat_def)

lemma advance_times_rotorIII_26: "advance_times 26 rotorIII 26 = Some (rotorIII, 1)"
proof -
  have "advance_times 26 (rotorIII\<lparr>position := 0\<rparr>) 26 = Some (rotorIII\<lparr>position := 0\<rparr>, 1)"
    by (simp add: advance_times_unfold advance_rotorIII notchesIII_bits upt_26)
  then show ?thesis by (simp add: rotorIII_def)
qed

text \<open>
  C2. The machine's \<open>advance\<close> steps the first rotor and the later rotors move through the
  turnover callbacks; one revolution of the first rotor should advance the second by the
  number of notches of the first, and so on down the chain. Rotors III and II of the
  demonstration machine have one notch each, and 26 calls of \<open>advance()\<close> take rotor III
  once round with one turnover. On the machine as constructed, one call \<open>advance(26)\<close>
  moves rotor II by 1, but the same revolution made by 26 calls of \<open>advance(1)\<close> moves it
  by 2; five calls of \<open>advance(26)\<close> bring rotor II onto its notch at 5 and leave rotor I
  where it was; and 26 calls of \<open>advance(26)\<close>, one revolution of rotor II, move rotor I
  by 2.
\<close>

theorem cascade_miscounts:
  "bs_count (notches rotorIII) = 1 \<and> bs_count (notches rotorII) = 1 \<and> notches rotorII ! 5 \<and>
   advance_times 26 rotorIII 26 = Some (rotorIII, 1) \<and>
   map_option (\<lambda>(m, outs). map position (rotors m)) (machine_run 26 enigma [CallAdvance 26]) =
     Some [0, 1, 0] \<and>
   map_option (\<lambda>(m, outs). map position (rotors m))
     (machine_run 26 enigma (replicate 26 (CallAdvance 1))) = Some [0, 2, 0] \<and>
   map_option (\<lambda>(m, outs). map position (rotors m))
     (machine_run 26 enigma
        [CallAdvance 26, CallAdvance 26, CallAdvance 26, CallAdvance 26, CallAdvance 26]) =
     Some [0, 5, 0] \<and>
   map_option (\<lambda>(m, outs). map position (rotors m))
     (machine_run 26 enigma (replicate 26 (CallAdvance 26))) = Some [0, 0, 2]"
proof -
  have "(5::nat) < 26" by simp
  then have "notches rotorII ! 5"
    by (simp add: notches_demo(2))
  then show ?thesis
    using bs_count_demo(1,2) advance_times_rotorIII_26 one_call_of_26 twenty_six_calls_of_1
      five_calls_of_26 twenty_six_calls_of_26
    by blast
qed

end
